theory Spec2Isabelle
  imports Main "HOL-Library.Monad_Syntax"
begin

section \<open>The node graph and the set object of AVLSet.hpp\<close>

text \<open>
  A \<open>Node*\<close> is either the null pointer or the address of a node that owns its two
  children, so the pointer graph hanging below \<open>_root\<close> is a tree. The fields of
  \<open>struct Node\<close> are kept in their order: left, right, value, height. The element type
  of the template is any type with a linear order; \<open>==\<close>, \<open><\<close> and \<open>>\<close> of the
  source are the equality and the order of that type. The cached height and the
  element counter have type \<open>int\<close> in the source and are mathematical integers here:
  the development speaks about trees with fewer than \<open>2^31\<close> nodes.

  Dereferencing a null pointer is the one way in which the source can fault. Every
  function that dereferences a pointer the source does not test returns an option,
  and \<open>None\<close> is that fault.
\<close>

datatype 'a node = Nullptr | Node "'a node" "'a node" 'a int

datatype Rotation = LL | LR | RL | RR

record 'a AVLSet =
  root :: "'a node"
  sz :: int
  shouldBalance :: bool

definition AVLSet_new :: "bool \<Rightarrow> 'a AVLSet" where
  "AVLSet_new b = \<lparr>root = Nullptr, sz = 0, shouldBalance = b\<rparr>"

fun getHeight :: "'a node \<Rightarrow> int" where
  "getHeight Nullptr = - 1"
| "getHeight (Node l r v h) = h"

subsection \<open>Rotation selection and the four rotations\<close>

fun getNeededRotation :: "'a::linorder node \<Rightarrow> 'a \<Rightarrow> Rotation option" where
  "getNeededRotation Nullptr element = None"
| "getNeededRotation (Node l r v h) element =
     (if element < v then
        (case l of
           Nullptr \<Rightarrow> None
         | Node ll lr lv lh \<Rightarrow> if element < lv then Some LL else Some LR)
      else
        (case r of
           Nullptr \<Rightarrow> None
         | Node rl rr rv rh \<Rightarrow> if element < rv then Some RL else Some RR))"

fun rotLL :: "'a node \<Rightarrow> 'a node option" where
  "rotLL (Node (Node al t2 av ah) r v h) =
     (let t = Node t2 r v (1 + max (getHeight t2) (getHeight r))
      in Some (Node al t av (1 + max (getHeight al) (getHeight t))))"
| "rotLL _ = None"

fun rotLR :: "'a node \<Rightarrow> 'a node option" where
  "rotLR (Node (Node al (Node t2 t3 bv bh) av ah) r v h) =
     (let a = Node al t2 av (1 + max (getHeight al) (getHeight t2));
          t = Node t3 r v (1 + max (getHeight t3) (getHeight r))
      in Some (Node a t bv (1 + max (getHeight a) (getHeight t))))"
| "rotLR _ = None"

fun rotRL :: "'a node \<Rightarrow> 'a node option" where
  "rotRL (Node l (Node (Node t2 t3 bv bh) cr cv ch) v h) =
     (let t = Node l t2 v (1 + max (getHeight l) (getHeight t2));
          c = Node t3 cr cv (1 + max (getHeight t3) (getHeight cr))
      in Some (Node t c bv (1 + max (getHeight t) (getHeight c))))"
| "rotRL _ = None"

fun rotRR :: "'a node \<Rightarrow> 'a node option" where
  "rotRR (Node l (Node t2 br bv bh) v h) =
     (let t = Node l t2 v (1 + max (getHeight l) (getHeight t2))
      in Some (Node t br bv (1 + max (getHeight t) (getHeight br))))"
| "rotRR _ = None"

fun rotate :: "'a node \<Rightarrow> Rotation \<Rightarrow> 'a node option" where
  "rotate t LL = rotLL t"
| "rotate t LR = rotLR t"
| "rotate t RL = rotRL t"
| "rotate t RR = rotRR t"

subsection \<open>Insertion\<close>

text \<open>
  \<open>addR\<close> takes the balancing flag of the set it is a member of, the subtree, the
  element and the current value of the reference parameter \<open>exists\<close>; it returns
  the new subtree together with the final value of \<open>exists\<close>.
\<close>

fun addR :: "bool \<Rightarrow> 'a::linorder node \<Rightarrow> 'a \<Rightarrow> bool \<Rightarrow> ('a node \<times> bool) option" where
  "addR sb Nullptr element ex = Some (Node Nullptr Nullptr element 0, ex)"
| "addR sb (Node l r v h) element ex =
     (if v = element then Some (Node l r v h, True)
      else do {
        (l', r', ex') \<leftarrow>
          (if element < v
           then do { (l', e) \<leftarrow> addR sb l element ex; Some (l', r, e) }
           else do { (r', e) \<leftarrow> addR sb r element ex; Some (l, r', e) });
        if \<not> ex' then
          let newHeight = 1 + max (getHeight l') (getHeight r');
              h' = (if newHeight > h then h + 1 else h)
          in if \<bar>getHeight l' - getHeight r'\<bar> > 1 \<and> sb
             then do {
               rot \<leftarrow> getNeededRotation (Node l' r' v h') element;
               t \<leftarrow> rotate (Node l' r' v h') rot;
               Some (t, ex')
             }
             else Some (Node l' r' v h', ex')
        else Some (Node l' r' v h, ex')
      })"

definition add :: "'a::linorder AVLSet \<Rightarrow> 'a \<Rightarrow> 'a AVLSet option" where
  "add s element = do {
     (t, ex) \<leftarrow> addR (shouldBalance s) (root s) element False;
     Some (s\<lparr>root := t, sz := (if \<not> ex then sz s + 1 else sz s)\<rparr>)
   }"

text \<open>A sequence of \<open>add\<close> calls, left to right; a fault ends the run.\<close>

fun adds :: "'a::linorder AVLSet \<Rightarrow> 'a list \<Rightarrow> 'a AVLSet option" where
  "adds s [] = Some s"
| "adds s (x # xs) = do { s' \<leftarrow> add s x; adds s' xs }"

subsection \<open>Queries\<close>

text \<open>The loop of \<open>contains\<close> walks down one path; \<open>cur\<close> is the argument.\<close>

fun containsR :: "'a::linorder node \<Rightarrow> 'a \<Rightarrow> bool" where
  "containsR Nullptr element = False"
| "containsR (Node l r v h) element =
     (if v = element then True
      else if element > v then containsR r element
      else containsR l element)"

definition contains :: "'a::linorder AVLSet \<Rightarrow> 'a \<Rightarrow> bool" where
  "contains s element = containsR (root s) element"

definition size_AVLSet :: "'a AVLSet \<Rightarrow> int" where
  "size_AVLSet s = sz s"

definition height :: "'a AVLSet \<Rightarrow> int" where
  "height s = getHeight (root s)"

subsection \<open>Traversals\<close>

text \<open>
  A traversal is modelled by the list of the values it passes to \<open>visit\<close>, in call
  order. \<open>preorderR\<close> and \<open>postorderR\<close> read \<open>t->value\<close> and \<open>t->left\<close> without
  testing \<open>t\<close>, so on the null pointer they fault; \<open>inorderR\<close> tests \<open>t\<close> first and
  cannot fault.
\<close>

fun preorderR :: "'a node \<Rightarrow> 'a list option" where
  "preorderR Nullptr = None"
| "preorderR (Node l r v h) = do {
     ls \<leftarrow> (if l \<noteq> Nullptr then preorderR l else Some []);
     rs \<leftarrow> (if r \<noteq> Nullptr then preorderR r else Some []);
     Some (v # ls @ rs)
   }"

definition preorder :: "'a AVLSet \<Rightarrow> 'a list option" where
  "preorder s = preorderR (root s)"

fun inorderR :: "'a node \<Rightarrow> 'a list" where
  "inorderR Nullptr = []"
| "inorderR (Node l r v h) = inorderR l @ v # inorderR r"

definition inorder :: "'a AVLSet \<Rightarrow> 'a list" where
  "inorder s = inorderR (root s)"

fun postorderR :: "'a node \<Rightarrow> 'a list option" where
  "postorderR Nullptr = None"
| "postorderR (Node l r v h) = do {
     ls \<leftarrow> (if l \<noteq> Nullptr then postorderR l else Some []);
     rs \<leftarrow> (if r \<noteq> Nullptr then postorderR r else Some []);
     Some (ls @ rs @ [v])
   }"

definition postorder :: "'a AVLSet \<Rightarrow> 'a list option" where
  "postorder s = postorderR (root s)"

subsection \<open>Move construction and move assignment\<close>

text \<open>
  Both operations change two objects, so they return the pair (destination, source).
  \<open>swap_members\<close> is the three \<open>std::swap\<close> calls they share. The move constructor
  first initialises the new object to null root, size zero and flag false.
\<close>

definition swap_members :: "'a AVLSet \<Rightarrow> 'a AVLSet \<Rightarrow> 'a AVLSet \<times> 'a AVLSet" where
  "swap_members this s =
     (let (r1, r2) = (root s, root this);
          (n1, n2) = (sz s, sz this);
          (b1, b2) = (shouldBalance s, shouldBalance this)
      in (this\<lparr>root := r1, sz := n1, shouldBalance := b1\<rparr>,
          s\<lparr>root := r2, sz := n2, shouldBalance := b2\<rparr>))"

definition move_construct :: "'a AVLSet \<Rightarrow> 'a AVLSet \<times> 'a AVLSet" where
  "move_construct s = swap_members \<lparr>root = Nullptr, sz = 0, shouldBalance = False\<rparr> s"

definition move_assign :: "'a AVLSet \<Rightarrow> 'a AVLSet \<Rightarrow> 'a AVLSet \<times> 'a AVLSet" where
  "move_assign this s = swap_members this s"

section \<open>Invariants of the node graph\<close>

text \<open>
  \<open>set_node\<close> is the set of values stored below a pointer. \<open>bst\<close> is the search-tree
  order, \<open>heights_ok\<close> says that every cached height is one more than the larger cached
  height of the two children, and \<open>balanced\<close> is the AVL condition on the cached heights,
  which is what \<open>addR\<close> itself tests.
\<close>

fun set_node :: "'a node \<Rightarrow> 'a set" where
  "set_node Nullptr = {}"
| "set_node (Node l r v h) = insert v (set_node l \<union> set_node r)"

fun bst :: "'a::linorder node \<Rightarrow> bool" where
  "bst Nullptr = True"
| "bst (Node l r v h) =
     (bst l \<and> bst r \<and> (\<forall>y \<in> set_node l. y < v) \<and> (\<forall>y \<in> set_node r. v < y))"

fun heights_ok :: "'a node \<Rightarrow> bool" where
  "heights_ok Nullptr = True"
| "heights_ok (Node l r v h) =
     (h = 1 + max (getHeight l) (getHeight r) \<and> heights_ok l \<and> heights_ok r)"

fun balanced :: "'a node \<Rightarrow> bool" where
  "balanced Nullptr = True"
| "balanced (Node l r v h) =
     (\<bar>getHeight l - getHeight r\<bar> \<le> 1 \<and> balanced l \<and> balanced r)"

text \<open>
  \<open>tree_height\<close> is the height computed from the shape alone, ignoring the cache, and
  \<open>avl_balanced\<close> is the AVL condition on it.
\<close>

fun tree_height :: "'a node \<Rightarrow> int" where
  "tree_height Nullptr = - 1"
| "tree_height (Node l r v h) = 1 + max (tree_height l) (tree_height r)"

fun avl_balanced :: "'a node \<Rightarrow> bool" where
  "avl_balanced Nullptr = True"
| "avl_balanced (Node l r v h) =
     (\<bar>tree_height l - tree_height r\<bar> \<le> 1 \<and> avl_balanced l \<and> avl_balanced r)"

text \<open>
  The right-leaning chain holding the elements of a list from the root downwards, with
  the cached heights such a chain has.
\<close>

fun chain :: "'a list \<Rightarrow> 'a node" where
  "chain [] = Nullptr"
| "chain (x # xs) = Node Nullptr (chain xs) x (int (length xs))"

text \<open>
  What \<open>addR\<close> does to a node after the recursive call has returned with \<open>exists\<close>
  still false: the height update and the guarded rotation. It is the tail of the
  second equation of \<open>addR\<close>, named so that the two directions can be treated one at
  a time (lemmas \<open>addR_left_new\<close> and \<open>addR_right_new\<close> connect it to \<open>addR\<close>).
\<close>

definition fixup :: "bool \<Rightarrow> 'a::linorder node \<Rightarrow> 'a node \<Rightarrow> 'a \<Rightarrow> int \<Rightarrow> 'a \<Rightarrow> 'a node option" where
  "fixup sb l r v h x =
     (let h' = (if 1 + max (getHeight l) (getHeight r) > h then h + 1 else h)
      in if \<bar>getHeight l - getHeight r\<bar> > 1 \<and> sb
         then getNeededRotation (Node l r v h') x \<bind> rotate (Node l r v h')
         else Some (Node l r v h'))"

text \<open>
  \<open>grown t x t'\<close> holds when \<open>t'\<close> has kept the root of \<open>t\<close> and the child on the
  side of \<open>x\<close> is the higher one. \<open>add_post\<close> is what the insertion of a new element
  establishes; \<open>set_inv\<close> is the invariant of the set object.
\<close>

definition grown :: "'a::linorder node \<Rightarrow> 'a \<Rightarrow> 'a node \<Rightarrow> bool" where
  "grown t x t' =
     (case t of
        Nullptr \<Rightarrow> True
      | Node l r v h \<Rightarrow>
          (case t' of
             Nullptr \<Rightarrow> False
           | Node l' r' v' h' \<Rightarrow>
               v' = v \<and> (x < v \<longrightarrow> getHeight r' < getHeight l') \<and>
               (v < x \<longrightarrow> getHeight l' < getHeight r')))"

definition add_post :: "bool \<Rightarrow> 'a::linorder node \<Rightarrow> 'a \<Rightarrow> 'a node \<Rightarrow> bool" where
  "add_post sb t x t' =
     (bst t' \<and> heights_ok t' \<and> (sb \<longrightarrow> balanced t') \<and>
      set_node t' = insert x (set_node t) \<and>
      (getHeight t' = getHeight t \<or> (getHeight t' = getHeight t + 1 \<and> grown t x t')))"

definition set_inv :: "'a::linorder AVLSet \<Rightarrow> bool" where
  "set_inv s =
     (bst (root s) \<and> heights_ok (root s) \<and> (shouldBalance s \<longrightarrow> balanced (root s)) \<and>
      sz s = int (card (set_node (root s))))"

section \<open>Insertion keeps the invariants\<close>

lemma getHeight_ge: "heights_ok t \<Longrightarrow> - 1 \<le> getHeight t"
  by (induction t) auto

lemma getHeight_neg: "heights_ok t \<Longrightarrow> getHeight t < 0 \<Longrightarrow> t = Nullptr"
proof (cases t)
  case (Node l r v h)
  assume "heights_ok t" "getHeight t < 0"
  with Node getHeight_ge[of l] show ?thesis by simp
qed simp

lemma nonneg_height_Node:
  "0 \<le> getHeight t \<Longrightarrow> \<exists>l r v h. t = Node l r v h"
  by (cases t) auto

lemma addR_left_new:
  "x < v \<Longrightarrow> addR sb l x False = Some (l', False) \<Longrightarrow>
   addR sb (Node l r v h) x False = map_option (\<lambda>t. (t, False)) (fixup sb l' r v h x)"
  apply (subgoal_tac "v \<noteq> x")
  apply (simp add: fixup_def Let_def)
  apply (simp_all split: bind_splits)
  done

lemma fixup_left:
  assumes "bst (Node l r v h)" "heights_ok (Node l r v h)" "sb \<longrightarrow> balanced (Node l r v h)"
    and "x < v" "x \<notin> set_node l" "add_post sb l x l'"
  shows "\<exists>t'. fixup sb l' r v h x = Some t' \<and> add_post sb (Node l r v h) x t'"
proof -
  from assms(6) have l': "bst l'" "heights_ok l'" "sb \<longrightarrow> balanced l'"
    and sl': "set_node l' = insert x (set_node l)"
    and hl: "getHeight l' = getHeight l \<or> (getHeight l' = getHeight l + 1 \<and> grown l x l')"
    by (simp_all add: add_post_def)
  from assms(2) have h: "h = 1 + max (getHeight l) (getHeight r)"
    and okr: "heights_ok r" and okl: "heights_ok l" by simp_all
  from assms(1) have bstr: "bst r" and lt: "\<forall>y\<in>set_node l. y < v"
    and gt: "\<forall>y\<in>set_node r. v < y" by simp_all
  from lt sl' assms(4) have lt': "\<forall>y\<in>set_node l'. y < v" by simp
  define h' where "h' = (if 1 + max (getHeight l') (getHeight r) > h then h + 1 else h)"
  have h'eq: "h' = 1 + max (getHeight l') (getHeight r)"
    using hl h by (auto simp: h'_def)
  have h'cases: "h' = h \<or> (h' = h + 1 \<and> getHeight r < getHeight l')"
    using hl h h'eq by auto
  show ?thesis
  proof (cases "sb \<and> \<bar>getHeight l' - getHeight r\<bar> > 1")
    case False
    have f: "fixup sb l' r v h x = Some (Node l' r v h')"
      using False by (auto simp: fixup_def h'_def Let_def)
    have "bst (Node l' r v h')" using l' bstr lt' gt by simp
    moreover have "heights_ok (Node l' r v h')" using l' okr h'eq by simp
    moreover have "sb \<longrightarrow> balanced (Node l' r v h')"
      using False l' assms(3) by auto
    moreover have "set_node (Node l' r v h') = insert x (set_node (Node l r v h))"
      using sl' by auto
    moreover have "getHeight (Node l' r v h') = getHeight (Node l r v h) \<or>
       (getHeight (Node l' r v h') = getHeight (Node l r v h) + 1 \<and>
        grown (Node l r v h) x (Node l' r v h'))"
      using h'cases assms(4) by (auto simp: grown_def)
    ultimately show ?thesis using f unfolding add_post_def by blast
  next
    case True
    then have sb: sb and big: "\<bar>getHeight l' - getHeight r\<bar> > 1" by simp_all
    from sb assms(3) have bal: "\<bar>getHeight l - getHeight r\<bar> \<le> 1"
      and balr: "balanced r" by simp_all
    from big bal hl have g1: "getHeight l' = getHeight l + 1" and gr: "grown l x l'"
      and g2: "getHeight l' = getHeight r + 2" and g3: "getHeight l = getHeight r + 1"
      by auto
    from g3 getHeight_ge[OF okr] have "0 \<le> getHeight l" by simp
    then obtain ll lr lv lh where l: "l = Node ll lr lv lh"
      using nonneg_height_Node by blast
    from gr l obtain ll' lr' lh' where l'N: "l' = Node ll' lr' lv lh'"
      and d1: "x < lv \<longrightarrow> getHeight lr' < getHeight ll'"
      and d2: "lv < x \<longrightarrow> getHeight ll' < getHeight lr'"
      by (auto simp: grown_def split: node.splits)
    from assms(5) l have neq: "x \<noteq> lv" by auto
    from l' sb l'N have bl: "\<bar>getHeight ll' - getHeight lr'\<bar> \<le> 1"
      and ball: "balanced ll'" and balr': "balanced lr'" by simp_all
    from l' l'N have lh': "lh' = 1 + max (getHeight ll') (getHeight lr')"
      and okll: "heights_ok ll'" and oklr: "heights_ok lr'" by simp_all
    from l' l'N have bll: "bst ll'" and blr: "bst lr'"
      and o1: "\<forall>y\<in>set_node ll'. y < lv" and o2: "\<forall>y\<in>set_node lr'. lv < y" by simp_all
    from lt' l'N have o3: "lv < v" and o4: "\<forall>y\<in>set_node ll'. y < v"
      and o5: "\<forall>y\<in>set_node lr'. y < v" by simp_all
    from g2 l'N have lh'r: "lh' = getHeight r + 2" by simp
    have fx: "fixup sb l' r v h x =
        getNeededRotation (Node l' r v h') x \<bind> rotate (Node l' r v h')"
      using True by (simp add: fixup_def h'_def Let_def)
    show ?thesis
    proof (cases "x < lv")
      case True
      with d1 bl lh' lh'r have e1: "getHeight ll' = getHeight r + 1"
        and e2: "getHeight lr' = getHeight r" by auto
      define t' where "t' = Node ll' (Node lr' r v (1 + max (getHeight lr') (getHeight r))) lv
          (1 + max (getHeight ll') (1 + max (getHeight lr') (getHeight r)))"
      have f: "fixup sb l' r v h x = Some t'"
        using True assms(4) unfolding fx by (simp add: l'N t'_def Let_def)
      have "bst t'" using bll blr bstr o1 o2 o3 o4 o5 gt
        by (auto simp: t'_def intro: less_trans)
      moreover have "heights_ok t'" using okll oklr okr by (simp add: t'_def)
      moreover have "balanced t'" using ball balr' balr e1 e2 by (simp add: t'_def)
      moreover have "set_node t' = insert x (set_node (Node l r v h))"
        using sl' l'N by (auto simp: t'_def)
      moreover have "getHeight t' = getHeight (Node l r v h)"
        using e1 e2 h g3 by (simp add: t'_def)
      ultimately show ?thesis using f unfolding add_post_def by blast
    next
      case False
      with neq have gtl: "lv < x" by simp
      with d2 bl lh' lh'r have e1: "getHeight lr' = getHeight r + 1"
        and e2: "getHeight ll' = getHeight r" by auto
      from e1 getHeight_ge[OF okr] have "0 \<le> getHeight lr'" by simp
      then obtain t2 t3 bv bh where b: "lr' = Node t2 t3 bv bh"
        using nonneg_height_Node by blast
      from oklr b have bh: "bh = 1 + max (getHeight t2) (getHeight t3)"
        and ok2: "heights_ok t2" and ok3: "heights_ok t3" by simp_all
      from balr' b have bb: "\<bar>getHeight t2 - getHeight t3\<bar> \<le> 1"
        and bal2: "balanced t2" and bal3: "balanced t3" by simp_all
      from blr b have b2: "bst t2" and b3: "bst t3"
        and p1: "\<forall>y\<in>set_node t2. y < bv" and p2: "\<forall>y\<in>set_node t3. bv < y" by simp_all
      from o2 b have p3: "lv < bv" and p4: "\<forall>y\<in>set_node t2. lv < y" by simp_all
      from o5 b have p5: "bv < v" and p6: "\<forall>y\<in>set_node t3. y < v" by simp_all
      from e1 b bh bb have m: "getHeight t2 \<le> getHeight r" "getHeight t3 \<le> getHeight r"
        "getHeight r \<le> getHeight t2 + 1" "getHeight r \<le> getHeight t3 + 1"
        "max (getHeight t2) (getHeight t3) = getHeight r" by auto
      define a' where "a' = Node ll' t2 lv (1 + max (getHeight ll') (getHeight t2))"
      define c' where "c' = Node t3 r v (1 + max (getHeight t3) (getHeight r))"
      define t' where "t' = Node a' c' bv (1 + max (getHeight a') (getHeight c'))"
      have f: "fixup sb l' r v h x = Some t'"
        using False assms(4) unfolding fx by (simp add: l'N b t'_def a'_def c'_def Let_def)
      have "bst a'" using bll b2 o1 p4 by (simp add: a'_def)
      moreover have "bst c'" using b3 bstr p6 gt by (simp add: c'_def)
      moreover have "\<forall>y\<in>set_node a'. y < bv"
        using o1 p1 p3 by (auto simp: a'_def intro: less_trans)
      moreover have "\<forall>y\<in>set_node c'. bv < y"
        using p2 p5 gt by (auto simp: c'_def intro: less_trans)
      ultimately have "bst t'" by (simp add: t'_def)
      moreover have "heights_ok t'" using okll ok2 ok3 okr by (simp add: t'_def a'_def c'_def)
      moreover have "balanced t'" using ball bal2 bal3 balr e2 m
        by (auto simp: t'_def a'_def c'_def)
      moreover have "set_node t' = insert x (set_node (Node l r v h))"
        using sl' l'N b by (auto simp: t'_def a'_def c'_def)
      moreover have "getHeight t' = getHeight (Node l r v h)"
        using e2 h g3 m by (auto simp: t'_def a'_def c'_def)
      ultimately show ?thesis using f unfolding add_post_def by blast
    qed
  qed
qed

lemma addR_right_new:
  "v < x \<Longrightarrow> addR sb r x False = Some (r', False) \<Longrightarrow>
   addR sb (Node l r v h) x False = map_option (\<lambda>t. (t, False)) (fixup sb l r' v h x)"
  apply (subgoal_tac "v \<noteq> x \<and> \<not> x < v")
  apply (simp add: fixup_def Let_def)
  apply (simp split: bind_splits)
  apply auto
  done

lemma fixup_right:
  assumes "bst (Node l r v h)" "heights_ok (Node l r v h)" "sb \<longrightarrow> balanced (Node l r v h)"
    and "v < x" "x \<notin> set_node r" "add_post sb r x r'"
  shows "\<exists>t'. fixup sb l r' v h x = Some t' \<and> add_post sb (Node l r v h) x t'"
proof -
  from assms(6) have r': "bst r'" "heights_ok r'" "sb \<longrightarrow> balanced r'"
    and sr': "set_node r' = insert x (set_node r)"
    and hr: "getHeight r' = getHeight r \<or> (getHeight r' = getHeight r + 1 \<and> grown r x r')"
    by (simp_all add: add_post_def)
  from assms(2) have h: "h = 1 + max (getHeight l) (getHeight r)"
    and okr: "heights_ok r" and okl: "heights_ok l" by simp_all
  from assms(1) have bstl: "bst l" and lt: "\<forall>y\<in>set_node l. y < v"
    and gt: "\<forall>y\<in>set_node r. v < y" by simp_all
  from gt sr' assms(4) have gt': "\<forall>y\<in>set_node r'. v < y" by simp
  from assms(4) have nlt: "\<not> x < v" by simp
  define h' where "h' = (if 1 + max (getHeight l) (getHeight r') > h then h + 1 else h)"
  have h'eq: "h' = 1 + max (getHeight l) (getHeight r')"
    using hr h by (auto simp: h'_def)
  have h'cases: "h' = h \<or> (h' = h + 1 \<and> getHeight l < getHeight r')"
    using hr h h'eq by auto
  show ?thesis
  proof (cases "sb \<and> \<bar>getHeight l - getHeight r'\<bar> > 1")
    case False
    have f: "fixup sb l r' v h x = Some (Node l r' v h')"
      using False by (auto simp: fixup_def h'_def Let_def)
    have "bst (Node l r' v h')" using r' bstl lt gt' by simp
    moreover have "heights_ok (Node l r' v h')" using r' okl h'eq by simp
    moreover have "sb \<longrightarrow> balanced (Node l r' v h')"
      using False r' assms(3) by auto
    moreover have "set_node (Node l r' v h') = insert x (set_node (Node l r v h))"
      using sr' by auto
    moreover have "getHeight (Node l r' v h') = getHeight (Node l r v h) \<or>
       (getHeight (Node l r' v h') = getHeight (Node l r v h) + 1 \<and>
        grown (Node l r v h) x (Node l r' v h'))"
      using h'cases assms(4) by (auto simp: grown_def)
    ultimately show ?thesis using f unfolding add_post_def by blast
  next
    case True
    then have sb: sb and big: "\<bar>getHeight l - getHeight r'\<bar> > 1" by simp_all
    from sb assms(3) have bal: "\<bar>getHeight l - getHeight r\<bar> \<le> 1"
      and ball: "balanced l" by simp_all
    from big bal hr have g1: "getHeight r' = getHeight r + 1" and gr: "grown r x r'"
      and g2: "getHeight r' = getHeight l + 2" and g3: "getHeight r = getHeight l + 1"
      by auto
    from g3 getHeight_ge[OF okl] have "0 \<le> getHeight r" by simp
    then obtain rl rr rv rh where r: "r = Node rl rr rv rh"
      using nonneg_height_Node by blast
    from gr r obtain rl' rr' rh' where r'N: "r' = Node rl' rr' rv rh'"
      and d1: "x < rv \<longrightarrow> getHeight rr' < getHeight rl'"
      and d2: "rv < x \<longrightarrow> getHeight rl' < getHeight rr'"
      by (auto simp: grown_def split: node.splits)
    from assms(5) r have neq: "x \<noteq> rv" by auto
    from r' sb r'N have br: "\<bar>getHeight rl' - getHeight rr'\<bar> \<le> 1"
      and balrl: "balanced rl'" and balrr: "balanced rr'" by simp_all
    from r' r'N have rh': "rh' = 1 + max (getHeight rl') (getHeight rr')"
      and okrl: "heights_ok rl'" and okrr: "heights_ok rr'" by simp_all
    from r' r'N have brl: "bst rl'" and brr: "bst rr'"
      and o1: "\<forall>y\<in>set_node rl'. y < rv" and o2: "\<forall>y\<in>set_node rr'. rv < y" by simp_all
    from gt' r'N have o3: "v < rv" and o4: "\<forall>y\<in>set_node rl'. v < y"
      and o5: "\<forall>y\<in>set_node rr'. v < y" by simp_all
    from g2 r'N have rh'l: "rh' = getHeight l + 2" by simp
    have fx: "fixup sb l r' v h x =
        getNeededRotation (Node l r' v h') x \<bind> rotate (Node l r' v h')"
      using True by (simp add: fixup_def h'_def Let_def)
    show ?thesis
    proof (cases "x < rv")
      case False
      with neq have gtr: "rv < x" by simp
      with d2 br rh' rh'l have e1: "getHeight rr' = getHeight l + 1"
        and e2: "getHeight rl' = getHeight l" by auto
      define t' where "t' = Node (Node l rl' v (1 + max (getHeight l) (getHeight rl'))) rr' rv
          (1 + max (1 + max (getHeight l) (getHeight rl')) (getHeight rr'))"
      have f: "fixup sb l r' v h x = Some t'"
        using False nlt unfolding fx by (simp add: r'N t'_def Let_def)
      have "bst t'" using brl brr bstl o1 o2 o3 o4 o5 lt
        by (auto simp: t'_def intro: less_trans)
      moreover have "heights_ok t'" using okrl okrr okl by (simp add: t'_def)
      moreover have "balanced t'" using balrl balrr ball e1 e2 by (simp add: t'_def)
      moreover have "set_node t' = insert x (set_node (Node l r v h))"
        using sr' r'N by (auto simp: t'_def)
      moreover have "getHeight t' = getHeight (Node l r v h)"
        using e1 e2 h g3 by (simp add: t'_def)
      ultimately show ?thesis using f unfolding add_post_def by blast
    next
      case True
      with d1 br rh' rh'l have e1: "getHeight rl' = getHeight l + 1"
        and e2: "getHeight rr' = getHeight l" by auto
      from e1 getHeight_ge[OF okl] have "0 \<le> getHeight rl'" by simp
      then obtain t2 t3 bv bh where b: "rl' = Node t2 t3 bv bh"
        using nonneg_height_Node by blast
      from okrl b have bh: "bh = 1 + max (getHeight t2) (getHeight t3)"
        and ok2: "heights_ok t2" and ok3: "heights_ok t3" by simp_all
      from balrl b have bb: "\<bar>getHeight t2 - getHeight t3\<bar> \<le> 1"
        and bal2: "balanced t2" and bal3: "balanced t3" by simp_all
      from brl b have b2: "bst t2" and b3: "bst t3"
        and p1: "\<forall>y\<in>set_node t2. y < bv" and p2: "\<forall>y\<in>set_node t3. bv < y" by simp_all
      from o1 b have p3: "bv < rv" and p4: "\<forall>y\<in>set_node t3. y < rv" by simp_all
      from o4 b have p5: "v < bv" and p6: "\<forall>y\<in>set_node t2. v < y" by simp_all
      from e1 b bh bb have m: "getHeight t2 \<le> getHeight l" "getHeight t3 \<le> getHeight l"
        "getHeight l \<le> getHeight t2 + 1" "getHeight l \<le> getHeight t3 + 1"
        "max (getHeight t2) (getHeight t3) = getHeight l" by auto
      define a' where "a' = Node l t2 v (1 + max (getHeight l) (getHeight t2))"
      define c' where "c' = Node t3 rr' rv (1 + max (getHeight t3) (getHeight rr'))"
      define t' where "t' = Node a' c' bv (1 + max (getHeight a') (getHeight c'))"
      have f: "fixup sb l r' v h x = Some t'"
        using True nlt unfolding fx by (simp add: r'N b t'_def a'_def c'_def Let_def)
      have "bst a'" using bstl b2 lt p6 by (simp add: a'_def)
      moreover have "bst c'" using b3 brr p4 o2 by (simp add: c'_def)
      moreover have "\<forall>y\<in>set_node a'. y < bv"
        using lt p1 p5 by (auto simp: a'_def intro: less_trans)
      moreover have "\<forall>y\<in>set_node c'. bv < y"
        using p2 p3 o2 by (auto simp: c'_def intro: less_trans)
      ultimately have "bst t'" by (simp add: t'_def)
      moreover have "heights_ok t'" using okl ok2 ok3 okrr by (simp add: t'_def a'_def c'_def)
      moreover have "balanced t'" using ball bal2 bal3 balrr e2 m
        by (auto simp: t'_def a'_def c'_def)
      moreover have "set_node t' = insert x (set_node (Node l r v h))"
        using sr' r'N b by (auto simp: t'_def a'_def c'_def)
      moreover have "getHeight t' = getHeight (Node l r v h)"
        using e2 h g3 m by (auto simp: t'_def a'_def c'_def)
      ultimately show ?thesis using f unfolding add_post_def by blast
    qed
  qed
qed

lemma addR_dup_left:
  "x < v \<Longrightarrow> addR sb l x False = Some (l, True) \<Longrightarrow>
   addR sb (Node l r v h) x False = Some (Node l r v h, True)"
  by auto

lemma addR_dup_right:
  "v < x \<Longrightarrow> addR sb r x False = Some (r, True) \<Longrightarrow>
   addR sb (Node l r v h) x False = Some (Node l r v h, True)"
  by auto

lemma addR_correct:
  assumes "bst t" "heights_ok t" "sb \<longrightarrow> balanced t"
  shows "if x \<in> set_node t then addR sb t x False = Some (t, True)
         else (\<exists>t'. addR sb t x False = Some (t', False) \<and> add_post sb t x t')"
  using assms
proof (induction t)
  case Nullptr
  show ?case by (simp add: add_post_def grown_def)
next
  case (Node l r v h)
  from Node.prems have pl: "bst l" "heights_ok l" "sb \<longrightarrow> balanced l"
    and pr: "bst r" "heights_ok r" "sb \<longrightarrow> balanced r"
    and lt: "\<forall>y\<in>set_node l. y < v" and gt: "\<forall>y\<in>set_node r. v < y" by simp_all
  note IHl = Node.IH(1)[OF pl] and IHr = Node.IH(2)[OF pr]
  consider (eq) "x = v" | (less) "x < v" | (greater) "v < x"
    using less_linear by blast
  then show ?case
  proof cases
    case eq
    then show ?thesis by simp
  next
    case less
    with gt have nr: "x \<notin> set_node r" by auto
    show ?thesis
    proof (cases "x \<in> set_node l")
      case True
      with IHl have "addR sb l x False = Some (l, True)" by simp
      from addR_dup_left[OF less this] True show ?thesis by simp
    next
      case False
      with IHl obtain l' where a: "addR sb l x False = Some (l', False)"
        and p: "add_post sb l x l'" by auto
      from fixup_left[OF Node.prems less False p] obtain t'
        where f: "fixup sb l' r v h x = Some t'" and q: "add_post sb (Node l r v h) x t'"
        by blast
      from addR_left_new[OF less a] f
      have "addR sb (Node l r v h) x False = Some (t', False)" by simp
      with q False nr less show ?thesis by auto
    qed
  next
    case greater
    with lt have nl: "x \<notin> set_node l" by auto
    show ?thesis
    proof (cases "x \<in> set_node r")
      case True
      with IHr have "addR sb r x False = Some (r, True)" by simp
      from addR_dup_right[OF greater this] True show ?thesis by simp
    next
      case False
      with IHr obtain r' where a: "addR sb r x False = Some (r', False)"
        and p: "add_post sb r x r'" by auto
      from fixup_right[OF Node.prems greater False p] obtain t'
        where f: "fixup sb l r' v h x = Some t'" and q: "add_post sb (Node l r v h) x t'"
        by blast
      from addR_right_new[OF greater a] f
      have "addR sb (Node l r v h) x False = Some (t', False)" by simp
      with q False nl greater show ?thesis by auto
    qed
  qed
qed

lemma finite_set_node: "finite (set_node t)"
  by (induction t) auto

lemma getHeight_tree_height: "heights_ok t \<Longrightarrow> getHeight t = tree_height t"
  by (induction t) auto

lemma balanced_avl: "heights_ok t \<Longrightarrow> balanced t \<Longrightarrow> avl_balanced t"
  by (induction t) (auto simp: getHeight_tree_height)

lemma set_inorderR: "set (inorderR t) = set_node t"
  by (induction t) auto

lemma bst_inorderR: "bst t \<Longrightarrow> sorted_wrt (<) (inorderR t)"
  by (induction t) (auto simp: sorted_wrt_append set_inorderR intro: less_trans)

lemma containsR_bst: "bst t \<Longrightarrow> containsR t x = (x \<in> set_node t)"
  by (induction t) auto

lemma set_inv_new: "set_inv (AVLSet_new b)"
  by (simp add: set_inv_def AVLSet_new_def)

lemma add_correct:
  assumes "set_inv s"
  shows "\<exists>s'. add s x = Some s' \<and> set_inv s' \<and>
           set_node (root s') = insert x (set_node (root s)) \<and>
           shouldBalance s' = shouldBalance s \<and>
           (x \<in> set_node (root s) \<longrightarrow> s' = s)"
proof (cases "x \<in> set_node (root s)")
  case True
  from assms have "addR (shouldBalance s) (root s) x False = Some (root s, True)"
    using addR_correct[of "root s" "shouldBalance s" x] True by (simp add: set_inv_def)
  then have "add s x = Some s" by (simp add: add_def)
  with assms True show ?thesis by auto
next
  case False
  from assms obtain t' where a: "addR (shouldBalance s) (root s) x False = Some (t', False)"
    and p: "add_post (shouldBalance s) (root s) x t'"
    using addR_correct[of "root s" "shouldBalance s" x] False by (auto simp: set_inv_def)
  have e: "add s x = Some (s\<lparr>root := t', sz := sz s + 1\<rparr>)"
    using a by (simp add: add_def)
  from p have st: "set_node t' = insert x (set_node (root s))" by (simp add: add_post_def)
  have "card (set_node t') = card (set_node (root s)) + 1"
    using False st finite_set_node[of "root s"] by simp
  with assms p have "set_inv (s\<lparr>root := t', sz := sz s + 1\<rparr>)"
    by (simp add: set_inv_def add_post_def)
  with e st False show ?thesis by simp
qed

lemma adds_correct:
  "set_inv s \<Longrightarrow> \<exists>s'. adds s xs = Some s' \<and> set_inv s' \<and>
     set_node (root s') = set_node (root s) \<union> set xs \<and> shouldBalance s' = shouldBalance s"
proof (induction xs arbitrary: s)
  case Nil
  then show ?case by simp
next
  case (Cons x xs)
  from add_correct[OF Cons.prems, of x] obtain s1 where a: "add s x = Some s1"
    and i: "set_inv s1" and st: "set_node (root s1) = insert x (set_node (root s))"
    and f: "shouldBalance s1 = shouldBalance s" by blast
  from Cons.IH[OF i] obtain s' where "adds s1 xs = Some s'" "set_inv s'"
    "set_node (root s') = set_node (root s1) \<union> set xs" "shouldBalance s' = shouldBalance s1"
    by blast
  with a st f show ?case by auto
qed

lemma adds_new:
  "\<exists>s. adds (AVLSet_new b) xs = Some s \<and> set_inv s \<and> set_node (root s) = set xs \<and>
       shouldBalance s = b"
  using adds_correct[OF set_inv_new, of b xs] by (simp add: AVLSet_new_def)


lemma getHeight_chain: "getHeight (chain xs) = int (length xs) - 1"
  by (cases xs) auto

lemma addR_chain:
  "\<forall>y\<in>set xs. y < x \<Longrightarrow> addR False (chain xs) x False = Some (chain (xs @ [x]), False)"
proof (induction xs)
  case Nil
  show ?case by simp
next
  case (Cons y ys)
  then have lt: "y < x" and r: "addR False (chain ys) x False = Some (chain (ys @ [x]), False)"
    by simp_all
  from lt have n: "y \<noteq> x" "\<not> x < y" by auto
  show ?case using n r by (simp add: getHeight_chain)
qed

lemma adds_chain:
  "sorted_wrt (<) (ys @ xs) \<Longrightarrow>
   adds \<lparr>root = chain ys, sz = n, shouldBalance = False\<rparr> xs =
     Some \<lparr>root = chain (ys @ xs), sz = n + int (length xs), shouldBalance = False\<rparr>"
proof (induction xs arbitrary: ys n)
  case Nil
  show ?case by simp
next
  case (Cons x xs)
  from Cons.prems have b: "\<forall>y\<in>set ys. y < x" by (auto simp: sorted_wrt_append)
  from Cons.prems have s: "sorted_wrt (<) ((ys @ [x]) @ xs)" by simp
  have a: "add \<lparr>root = chain ys, sz = n, shouldBalance = False\<rparr> x =
      Some \<lparr>root = chain (ys @ [x]), sz = n + 1, shouldBalance = False\<rparr>"
    using addR_chain[OF b] by (simp add: add_def)
  show ?case using a Cons.IH[OF s, of "n + 1"] by simp
qed


text \<open>Below a node the two recursive traversals test each child before they descend.\<close>

lemma preorderR_Node: "\<exists>ys. preorderR (Node l r v h) = Some ys"
proof (induction "Node l r v h" arbitrary: l r v h)
  case (Node l r v h)
  have "\<exists>ls. (if l \<noteq> Nullptr then preorderR l else Some []) = Some ls"
    using Node(1) by (cases l) auto
  moreover have "\<exists>rs. (if r \<noteq> Nullptr then preorderR r else Some []) = Some rs"
    using Node(2) by (cases r) auto
  ultimately show ?case by auto
qed

lemma postorderR_Node: "\<exists>ys. postorderR (Node l r v h) = Some ys"
proof (induction "Node l r v h" arbitrary: l r v h)
  case (Node l r v h)
  have "\<exists>ls. (if l \<noteq> Nullptr then postorderR l else Some []) = Some ls"
    using Node(1) by (cases l) auto
  moreover have "\<exists>rs. (if r \<noteq> Nullptr then postorderR r else Some []) = Some rs"
    using Node(2) by (cases r) auto
  ultimately show ?case by auto
qed

section \<open>Properties of the set\<close>

text \<open>
  C1. Traversing an empty tree should call the visitor zero times, for each of the
  three traversals. \<open>inorder\<close> does so. \<open>preorder\<close> and \<open>postorder\<close> hand the null
  root to \<open>preorderR\<close> and \<open>postorderR\<close>, which read \<open>t->value\<close> and \<open>t->left\<close>
  without the test that \<open>inorderR\<close> makes, so on the empty set (the initial state
  for either value of the flag) they dereference the null pointer.
\<close>

theorem empty_traversals:
  "preorder (AVLSet_new b) = None \<and> postorder (AVLSet_new b) = None \<and>
   inorder (AVLSet_new b) = []"
  by (simp add: preorder_def postorder_def inorder_def AVLSet_new_def)

text \<open>
  C2, as the code has it. After move construction the source reports size 0 and
  height -1. Move assignment swaps the three members of the two objects, so afterwards
  the source reports the size and the height that the destination had before; these
  are 0 and -1 exactly when the destination was empty.
\<close>

theorem move_source_state:
  "size_AVLSet (snd (move_construct s)) = 0 \<and> height (snd (move_construct s)) = - 1 \<and>
   size_AVLSet (snd (move_assign d s)) = size_AVLSet d \<and>
   height (snd (move_assign d s)) = height d"
  by (simp add: move_construct_def move_assign_def swap_members_def size_AVLSet_def
      height_def)

theorem move_source_state_witness:
  "size_AVLSet (snd (move_construct
      \<lparr>root = Node Nullptr Nullptr (7::int) 0, sz = 1, shouldBalance = True\<rparr>)) = 0 \<and>
   height (snd (move_construct
      \<lparr>root = Node Nullptr Nullptr (7::int) 0, sz = 1, shouldBalance = True\<rparr>)) = - 1 \<and>
   size_AVLSet (snd (move_assign (AVLSet_new True)
      \<lparr>root = Node Nullptr Nullptr (7::int) 0, sz = 1, shouldBalance = True\<rparr>)) = 0 \<and>
   height (snd (move_assign (AVLSet_new True)
      \<lparr>root = Node Nullptr Nullptr (7::int) 0, sz = 1, shouldBalance = True\<rparr>)) = - 1"
  using move_source_state
    [of "\<lparr>root = Node Nullptr Nullptr (7::int) 0, sz = 1, shouldBalance = True\<rparr>"
        "AVLSet_new True"]
  by (simp add: size_AVLSet_def height_def AVLSet_new_def)

text \<open>
  C2, as stated, fails for move assignment into a populated destination. The
  destination holds 1 and the source holds 2 and 3 (both built by \<open>add\<close> with
  balancing enabled); after the assignment the source reports size 1 and height 0.
\<close>

theorem move_assign_source_not_empty:
  "adds (AVLSet_new True) [1::int] =
     Some \<lparr>root = Node Nullptr Nullptr 1 0, sz = 1, shouldBalance = True\<rparr> \<and>
   adds (AVLSet_new True) [2::int, 3] =
     Some \<lparr>root = Node Nullptr (Node Nullptr Nullptr 3 0) 2 1, sz = 2,
           shouldBalance = True\<rparr> \<and>
   \<not> (size_AVLSet (snd (move_assign
          \<lparr>root = Node Nullptr Nullptr (1::int) 0, sz = 1, shouldBalance = True\<rparr>
          \<lparr>root = Node Nullptr (Node Nullptr Nullptr 3 0) 2 1, sz = 2,
           shouldBalance = True\<rparr>)) = 0 \<and>
       height (snd (move_assign
          \<lparr>root = Node Nullptr Nullptr (1::int) 0, sz = 1, shouldBalance = True\<rparr>
          \<lparr>root = Node Nullptr (Node Nullptr Nullptr 3 0) 2 1, sz = 2,
           shouldBalance = True\<rparr>)) = - 1)"
  by (simp add: move_assign_def swap_members_def size_AVLSet_def height_def add_def
      AVLSet_new_def)

text \<open>
  C3. For a set constructed with balancing enabled, every sequence of \<open>add\<close> calls
  runs without a fault, and in the tree it leaves the heights of the two children of
  every node differ by at most 1, an absent child counting as -1. This holds for the
  cached heights and for the heights of the shape. Since the sequence is arbitrary,
  it holds after every single call.
\<close>

theorem balance_invariant:
  "\<exists>s. adds (AVLSet_new True) xs = Some s \<and> balanced (root s) \<and> avl_balanced (root s)"
proof -
  from adds_new[of True xs] obtain s where "adds (AVLSet_new True) xs = Some s"
    "set_inv s" "shouldBalance s = True" by blast
  then show ?thesis by (auto simp: set_inv_def balanced_avl)
qed

theorem balance_invariant_witness:
  "(\<exists>s. adds (AVLSet_new True) [1::int, 2, 3] = Some s \<and> balanced (root s) \<and>
        avl_balanced (root s)) \<and>
   adds (AVLSet_new True) [1::int, 2, 3] =
     Some \<lparr>root = Node (Node Nullptr Nullptr 1 0) (Node Nullptr Nullptr 3 0) 2 1, sz = 3,
           shouldBalance = True\<rparr>"
  using balance_invariant [of "[1::int, 2, 3]"]
  by (simp add: add_def AVLSet_new_def)

text \<open>
  C4. For any sequence of \<open>add\<close> calls, with balancing enabled or disabled, the
  inorder traversal visits exactly the elements that were added, each once, in
  strictly increasing order.
\<close>

theorem inorder_sorted_distinct:
  "\<exists>s. adds (AVLSet_new b) xs = Some s \<and> sorted_wrt (<) (inorder s) \<and>
       set (inorder s) = set xs \<and> inorder s = sorted_list_of_set (set xs)"
proof -
  from adds_new[of b xs] obtain s where a: "adds (AVLSet_new b) xs = Some s"
    and i: "set_inv s" and st: "set_node (root s) = set xs" by blast
  from i have so: "sorted_wrt (<) (inorder s)"
    by (simp add: set_inv_def inorder_def bst_inorderR)
  have se: "set (inorder s) = set xs" by (simp add: inorder_def set_inorderR st)
  from so have "sorted (inorder s)" "distinct (inorder s)"
    by (simp_all add: strict_sorted_iff)
  then have "inorder s = sorted_list_of_set (set xs)"
    using se sorted_list_of_set.idem_if_sorted_distinct by metis
  with a so se show ?thesis by blast
qed

theorem inorder_sorted_distinct_witness:
  "\<exists>s. adds (AVLSet_new True) [5::int, 3, 8, 1, 4, 3] = Some s \<and>
       inorder s = [1, 3, 4, 5, 8]"
  using inorder_sorted_distinct [of True "[5::int, 3, 8, 1, 4, 3]"]
  by (simp add: add_def AVLSet_new_def inorder_def)

text \<open>
  C5. In every tree reached by a sequence of \<open>add\<close> calls, the cached height of
  every node is 1 plus the larger of the heights of its two subtrees, an absent
  subtree having height -1; so the cached height of the root is the height of the
  shape. \<open>height()\<close> returns the cached height of the root, or -1 for the empty set.
\<close>

theorem cached_heights_correct:
  "\<exists>s. adds (AVLSet_new b) xs = Some s \<and> heights_ok (root s) \<and>
       getHeight (root s) = tree_height (root s) \<and>
       height s = (case root s of Nullptr \<Rightarrow> - 1 | Node l r v h \<Rightarrow> h)"
proof -
  from adds_new[of b xs] obtain s where a: "adds (AVLSet_new b) xs = Some s"
    and i: "set_inv s" by blast
  from i have ok: "heights_ok (root s)" by (simp add: set_inv_def)
  have "height s = (case root s of Nullptr \<Rightarrow> - 1 | Node l r v h \<Rightarrow> h)"
    by (cases "root s") (simp_all add: height_def)
  with a ok getHeight_tree_height[OF ok] show ?thesis by blast
qed

theorem cached_heights_correct_witness:
  "\<exists>s. adds (AVLSet_new False) [1::int, 2, 3] = Some s \<and> heights_ok (root s) \<and>
       height s = 2"
  using cached_heights_correct [of False "[1::int, 2, 3]"]
  by (simp add: add_def AVLSet_new_def height_def)

text \<open>
  C6. After any sequence of \<open>add\<close> calls, \<open>size()\<close> is the number of distinct
  elements passed to \<open>add\<close>, and adding an element that is already in the set leaves
  \<open>size()\<close> unchanged.
\<close>

theorem size_counts_distinct:
  "\<exists>s. adds (AVLSet_new b) xs = Some s \<and> size_AVLSet s = int (card (set xs)) \<and>
       (\<forall>x\<in>set xs. \<exists>s'. add s x = Some s' \<and> size_AVLSet s' = size_AVLSet s)"
proof -
  from adds_new[of b xs] obtain s where a: "adds (AVLSet_new b) xs = Some s"
    and i: "set_inv s" and st: "set_node (root s) = set xs" by blast
  from i st have c: "size_AVLSet s = int (card (set xs))"
    by (simp add: set_inv_def size_AVLSet_def)
  have "\<exists>s'. add s x = Some s' \<and> size_AVLSet s' = size_AVLSet s" if "x \<in> set xs" for x
    using add_correct[OF i, of x] that st by auto
  with a c show ?thesis by blast
qed

theorem size_counts_distinct_witness:
  "(3::int) \<in> set [3, 1, 3, 2] \<and>
   (\<exists>s. adds (AVLSet_new True) [3::int, 1, 3, 2] = Some s \<and> size_AVLSet s = 3 \<and>
        (\<exists>s'. add s 3 = Some s' \<and> size_AVLSet s' = size_AVLSet s))"
  using size_counts_distinct [of True "[3::int, 1, 3, 2]"]
  by (simp add: add_def AVLSet_new_def size_AVLSet_def)

text \<open>
  C7. \<open>add\<close> is idempotent. In every state reached by a sequence of \<open>add\<close> calls,
  adding an element that is already stored returns the very same state (same shape,
  values, cached heights, size and flag), and for any element a second \<open>add\<close> of it
  changes nothing that the first one produced.
\<close>

theorem add_idempotent:
  "\<exists>s s1. adds (AVLSet_new b) xs = Some s \<and> add s x = Some s1 \<and> add s1 x = Some s1 \<and>
       (x \<in> set xs \<longrightarrow> s1 = s)"
proof -
  from adds_new[of b xs] obtain s where a: "adds (AVLSet_new b) xs = Some s"
    and i: "set_inv s" and st: "set_node (root s) = set xs" by blast
  from add_correct[OF i, of x] obtain s1 where a1: "add s x = Some s1"
    and i1: "set_inv s1" and st1: "set_node (root s1) = insert x (set_node (root s))"
    and e: "x \<in> set_node (root s) \<longrightarrow> s1 = s" by blast
  from add_correct[OF i1, of x] st1 have "add s1 x = Some s1" by auto
  with a a1 e st show ?thesis by auto
qed

theorem add_idempotent_witness:
  "(1::int) \<in> set [2, 1, 3] \<and>
   (\<exists>s. adds (AVLSet_new True) [2::int, 1, 3] = Some s \<and> add s 1 = Some s)"
  using add_idempotent [of True "[2::int, 1, 3]" 1]
  by (simp add: add_def AVLSet_new_def)

text \<open>
  C8. After any sequence of \<open>add\<close> calls, \<open>contains(x)\<close> is true exactly when \<open>x\<close> is
  among the elements added. The lookup starts at the root, answers false at an absent
  child and true at a node holding \<open>x\<close>, and otherwise goes left when \<open>x\<close> is
  strictly less than the value of the node and right when it is strictly greater.
\<close>

theorem contains_correct:
  "(\<exists>s. adds (AVLSet_new b) xs = Some s \<and> contains s x = (x \<in> set xs)) \<and>
   contains s0 x = containsR (root s0) x \<and>
   containsR Nullptr x = False \<and>
   containsR (Node l r v h) x =
     (if x = v then True else if x < v then containsR l x else containsR r x)"
proof -
  from adds_new[of b xs] obtain s where a: "adds (AVLSet_new b) xs = Some s"
    and i: "set_inv s" and st: "set_node (root s) = set xs" by blast
  from i st have "contains s x = (x \<in> set xs)"
    by (simp add: set_inv_def contains_def containsR_bst)
  with a show ?thesis by (auto simp: contains_def)
qed

theorem contains_correct_witness:
  "\<exists>s. adds (AVLSet_new True) [2::int, 1, 3] = Some s \<and> contains s 3 \<and> \<not> contains s 5"
  using contains_correct [where b = True and xs = "[2::int, 1, 3]" and x = 3]
  by (simp add: add_def AVLSet_new_def contains_def)

text \<open>
  C9. For a set constructed with balancing disabled, adding \<open>n\<close> elements in strictly
  ascending order runs without a fault and leaves the right-leaning chain of these
  elements, so \<open>height()\<close> is \<open>n - 1\<close>.
\<close>

theorem unbalanced_ascending_chain:
  assumes "sorted_wrt (<) xs"
  shows "\<exists>s. adds (AVLSet_new False) xs = Some s \<and> root s = chain xs \<and>
           height s = int (length xs) - 1"
  using adds_chain[of "[]" xs 0] assms
  by (simp add: AVLSet_new_def height_def getHeight_chain)

theorem unbalanced_ascending_chain_witness:
  "sorted_wrt (<) [1::int, 2, 3] \<and>
   (\<exists>s. adds (AVLSet_new False) [1::int, 2, 3] = Some s \<and> root s = chain [1, 2, 3] \<and>
        height s = 2)"
proof -
  have h: "sorted_wrt (<) [1::int, 2, 3]" by simp
  from unbalanced_ascending_chain [OF h] show ?thesis using h by simp
qed

text \<open>
  C10. After move construction the source is the empty set with the balancing flag
  false, whatever flag it was constructed with, and every later sequence of \<open>add\<close>
  calls on it runs without a fault and gives what the same calls give on a set
  constructed with balancing disabled. Not every later operation on the source is
  defined, though: \<open>preorder\<close> and \<open>postorder\<close> on the moved-from source dereference
  its null root, as they do on any empty set (see C1).
\<close>

theorem moved_from_source:
  "snd (move_construct s) = AVLSet_new False \<and>
   adds (snd (move_construct s)) xs = adds (AVLSet_new False) xs \<and>
   (\<exists>s'. adds (snd (move_construct s)) xs = Some s') \<and>
   preorder (snd (move_construct s)) = None \<and>
   postorder (snd (move_construct s)) = None"
proof -
  have e: "snd (move_construct s) = AVLSet_new False"
    by (simp add: move_construct_def swap_members_def AVLSet_new_def)
  from adds_new[of False xs] have "\<exists>s'. adds (AVLSet_new False) xs = Some s'" by blast
  with e show ?thesis by (simp add: preorder_def postorder_def AVLSet_new_def)
qed

end
